theory Spec2Isabelle
  imports Main "HOL-Library.AList"
begin

section \<open>Document tree\<close>

text \<open>
  The editor of \<^verbatim>\<open>src/App.js\<close> works on a tree of plain objects: the editor itself (it has
  \<^verbatim>\<open>children\<close> and no \<^verbatim>\<open>type\<close>), elements \<^verbatim>\<open>{type, children}\<close> and text leaves
  \<^verbatim>\<open>{text, ...marks}\<close>. A mark value is whatever was stored under the mark's name.
\<close>

datatype jsval = JUndefined | JBool bool | JNum int | JStr string

type_synonym marks = "(string \<times> jsval) list"

datatype node =
    Editor "node list"
  | Element string "node list"
  | Text string marks

type_synonym path = "nat list"

type_synonym entry = "node \<times> path"

datatype error = InvalidPath | NoParent | TypeError

text \<open>\<^verbatim>\<open>zeroWidthChar\<close> is the one-character string of code point U+FEFF: three bytes in UTF-8.\<close>

definition zeroWidthChar :: string where
  "zeroWidthChar = [CHR 0xEF, CHR 0xBB, CHR 0xBF]"

text \<open>\<^verbatim>\<open>node.type\<close>: undefined on the editor and on a text leaf.\<close>

fun node_type :: "node \<Rightarrow> string option" where
  "node_type (Editor cs) = None"
| "node_type (Element ty cs) = Some ty"
| "node_type (Text s ms) = None"

text \<open>\<^verbatim>\<open>node.children\<close>: undefined on a text leaf.\<close>

fun children :: "node \<Rightarrow> node list option" where
  "children (Editor cs) = Some cs"
| "children (Element ty cs) = Some cs"
| "children (Text s ms) = None"

fun with_children :: "node \<Rightarrow> node list \<Rightarrow> node" where
  "with_children (Editor cs) cs' = Editor cs'"
| "with_children (Element ty cs) cs' = Element ty cs'"
| "with_children (Text s ms) cs' = Text s ms"

fun is_Text :: "node \<Rightarrow> bool" where
  "is_Text (Text s ms) = True"
| "is_Text n = False"

fun is_Editor :: "node \<Rightarrow> bool" where
  "is_Editor (Editor cs) = True"
| "is_Editor n = False"

definition and_then :: "error + 'a \<Rightarrow> ('a \<Rightarrow> error + 'b) \<Rightarrow> error + 'b" where
  "and_then m f = (case m of Inl e \<Rightarrow> Inl e | Inr x \<Rightarrow> f x)"

section \<open>Path addressing and insertion (library operations the plugin calls)\<close>

text \<open>
  The plugin calls the path operations of the editor library, which \<^verbatim>\<open>src/App.js\<close> imports
  and does not contain. A path is the list of child indices from the root.
\<close>

text \<open>
  Modelled from the spec: \<^verbatim>\<open>Path.hasPrevious\<close> of the editor library: the last index of the
  path is above zero, so that a previous sibling index exists.
\<close>

definition Path_hasPrevious :: "path \<Rightarrow> bool" where
  "Path_hasPrevious p = (p \<noteq> [] \<and> 0 < last p)"

text \<open>
  Modelled from the spec: \<^verbatim>\<open>Path.previous\<close> of the editor library: the path of the previous
  sibling; it fails on the root path and where the last index is zero.
\<close>

definition Path_previous :: "path \<Rightarrow> error + path" where
  "Path_previous p =
     (if p = [] then Inl InvalidPath
      else if last p = 0 then Inl InvalidPath
      else Inr (butlast p @ [last p - 1]))"

text \<open>
  Modelled from the spec: \<^verbatim>\<open>Path.next\<close> of the editor library: the path of the next sibling;
  it fails on the root path.
\<close>

definition Path_next :: "path \<Rightarrow> error + path" where
  "Path_next p = (if p = [] then Inl InvalidPath else Inr (butlast p @ [last p + 1]))"

text \<open>
  Modelled from the spec: \<^verbatim>\<open>Path.parent\<close> of the editor library: the path of the enclosing
  node; the root path has none.
\<close>

definition Path_parent :: "path \<Rightarrow> error + path" where
  "Path_parent p = (if p = [] then Inl NoParent else Inr (butlast p))"

text \<open>
  Modelled from the spec: \<^verbatim>\<open>Node.get\<close> of the editor library: the node a path resolves to;
  it fails when an index is out of range or the path leads into a text leaf.
\<close>

fun Node_get :: "node \<Rightarrow> path \<Rightarrow> error + node" where
  "Node_get root [] = Inr root"
| "Node_get root (i # p) =
     (case children root of
        None \<Rightarrow> Inl InvalidPath
      | Some cs \<Rightarrow> if i < length cs then Node_get (cs ! i) p else Inl InvalidPath)"

text \<open>
  Modelled from the spec: \<^verbatim>\<open>Node.parent\<close> of the editor library: the node at the parent
  path; it fails at the root and when that node is a text leaf.
\<close>

definition Node_parent :: "node \<Rightarrow> path \<Rightarrow> error + node" where
  "Node_parent root p =
     and_then (Path_parent p) (\<lambda>pp.
     and_then (Node_get root pp) (\<lambda>n.
     if is_Text n then Inl InvalidPath else Inr n))"

text \<open>
  Modelled from the spec: \<^verbatim>\<open>Transforms.insertNodes(editor, node, {at: path})\<close> of the editor
  library, for one node and a path location: the node is spliced into the children of the
  parent of \<^verbatim>\<open>path\<close> at the last index of \<^verbatim>\<open>path\<close>, the siblings from there on moving one
  position right. It fails when the parent does not resolve or the index is past the end.
\<close>

fun insertNodes :: "node \<Rightarrow> node \<Rightarrow> path \<Rightarrow> error + node" where
  "insertNodes root x [] = Inl NoParent"
| "insertNodes root x [i] =
     (case children root of
        None \<Rightarrow> Inl InvalidPath
      | Some cs \<Rightarrow>
          if i \<le> length cs then Inr (with_children root (take i cs @ x # drop i cs))
          else Inl InvalidPath)"
| "insertNodes root x (i # j # p) =
     (case children root of
        None \<Rightarrow> Inl InvalidPath
      | Some cs \<Rightarrow>
          if i < length cs
          then and_then (insertNodes (cs ! i) x (j # p)) (\<lambda>c. Inr (with_children root (cs[i := c])))
          else Inl InvalidPath)"

section \<open>The plugin \<^verbatim>\<open>withInlineVoid\<close>\<close>

text \<open>
  \<^verbatim>\<open>editor.isVoid\<close> and \<^verbatim>\<open>editor.isInline\<close> as the plugin overrides them; the argument is
  the method of the editor being wrapped.
\<close>

definition isVoid :: "(node \<Rightarrow> bool) \<Rightarrow> node \<Rightarrow> bool" where
  "isVoid isVoid0 element = (if node_type element = Some ''inlineVoid'' then True else isVoid0 element)"

definition isInline :: "(node \<Rightarrow> bool) \<Rightarrow> node \<Rightarrow> bool" where
  "isInline isInline0 element =
     (if node_type element = Some ''inlineVoid'' then True else isInline0 element)"

text \<open>
  \<^verbatim>\<open>editor.normalizeNode\<close> as the plugin overrides it. \<open>base\<close> is the \<^verbatim>\<open>normalizeNode\<close> of the
  editor being wrapped, called last with the entry the plugin received. The editor is
  passed in and returned; every exception of the body is an \<open>Inl\<close>.
\<close>

definition normalizeNode :: "(entry \<Rightarrow> node \<Rightarrow> error + node) \<Rightarrow> entry \<Rightarrow> node \<Rightarrow> error + node" where
  "normalizeNode base entry editor =
     (case entry of (node, path) \<Rightarrow>
        if node_type node = Some ''inlineVoid'' then
          and_then (Node_parent editor path) (\<lambda>parentNode.
          and_then (case children parentNode of None \<Rightarrow> Inl TypeError | Some cs \<Rightarrow> Inr cs) (\<lambda>siblings.
          let isFirstChild = \<not> Path_hasPrevious path;
              islastChild = (int (last path) = int (length siblings) - 1)
          in
          and_then (Path_next path) (\<lambda>nextPath.
          and_then
            (if \<not> isFirstChild
             then and_then (Path_previous path) (\<lambda>prevPath.
                  and_then (Node_get editor prevPath) (\<lambda>prevSibling.
                  Inr (node_type prevSibling = Some ''inlineVoid'')))
             else Inr False) (\<lambda>hasPreviousAdjacentInlineVoid.
          and_then
            (if islastChild then insertNodes editor (Text zeroWidthChar []) nextPath
             else Inr editor) (\<lambda>editor1.
          and_then
            (if isFirstChild \<or> hasPreviousAdjacentInlineVoid
             then insertNodes editor1 (Text zeroWidthChar []) path
             else Inr editor1) (\<lambda>editor2.
          base entry editor2))))))
        else base entry editor)"

section \<open>The normalization pass\<close>

text \<open>
  Modelled from the spec: \<^verbatim>\<open>isVoid\<close> of the editor the plugin wraps. The spec derives
  voidness from the type and names no void type but the inline void, so the wrapped
  editor holds no element to be void.
\<close>

definition default_isVoid :: "node \<Rightarrow> bool" where
  "default_isVoid element = False"

text \<open>
  Modelled from the spec: \<^verbatim>\<open>normalizeNode\<close> of the editor the plugin wraps, which belongs to
  the editor library and not to \<^verbatim>\<open>src/App.js\<close>. It is rule 1 of the spec's per-entry
  rules: an element with zero children that is not void gets a single empty text leaf as
  its sole child. Rule 2 is the plugin above; rule 3 (list containers) is described by
  the spec as absent from the source and is not modelled.
\<close>

definition base_normalizeNode :: "entry \<Rightarrow> node \<Rightarrow> error + node" where
  "base_normalizeNode entry editor =
     (case entry of (node, path) \<Rightarrow>
        (case node of
           Element ty [] \<Rightarrow>
             if isVoid default_isVoid node then Inr editor
             else insertNodes editor (Text [] []) (path @ [0])
         | _ \<Rightarrow> Inr editor))"

text \<open>
  Modelled from the spec: the seed of the worklist, the path of every entry reachable
  from the root, in document order.
\<close>

fun paths_of :: "node \<Rightarrow> path list" and paths_of_list :: "nat \<Rightarrow> node list \<Rightarrow> path list" where
  "paths_of (Editor cs) = [] # paths_of_list 0 cs"
| "paths_of (Element ty cs) = [] # paths_of_list 0 cs"
| "paths_of (Text s ms) = [[]]"
| "paths_of_list i [] = []"
| "paths_of_list i (c # cs) = map ((#) i) (paths_of c) @ paths_of_list (Suc i) cs"

text \<open>
  Modelled from the spec: the check of one worklist entry. The path is resolved again in
  the current tree; a path that no longer resolves is skipped, otherwise the editor's
  \<^verbatim>\<open>normalizeNode\<close> (the plugin over the wrapped editor's) runs on the entry.
\<close>

definition normalize_entry :: "node \<Rightarrow> path \<Rightarrow> error + node" where
  "normalize_entry editor path =
     (case Node_get editor path of
        Inl e \<Rightarrow> Inr editor
      | Inr node \<Rightarrow> normalizeNode base_normalizeNode (node, path) editor)"

text \<open>
  Modelled from the spec: the normalization engine (\<^verbatim>\<open>Editor.normalize\<close> of the editor library
  with \<^verbatim>\<open>force: true\<close>), a state machine over a worklist of paths. An entry that changes
  nothing is dropped; after a repair the checks run again on the mutated tree, the
  worklist being seeded anew with every path of it. The pass ends when the worklist is
  empty, that is at a fixed point of all the checks.
\<close>

function normalize_worklist :: "node \<Rightarrow> path list \<Rightarrow> error + node" where
  "normalize_worklist editor [] = Inr editor"
| "normalize_worklist editor (path # paths) =
     (case normalize_entry editor path of
        Inl e \<Rightarrow> Inl e
      | Inr editor' \<Rightarrow>
          if editor' = editor then normalize_worklist editor paths
          else normalize_worklist editor' (paths_of editor'))"
  by pat_completeness auto

definition normalize :: "node \<Rightarrow> error + node" where
  "normalize editor = normalize_worklist editor (paths_of editor)"

text \<open>\<^verbatim>\<open>initialValue\<close> of \<^verbatim>\<open>src/App.js\<close>, as the children of the editor.\<close>

definition initialValue :: node where
  "initialValue = Editor
     [Element ''paragraph''
        [Text ''Some text '' [],
         Element ''inlineVoid'' [Text [] []],
         Text '' more text '' [],
         Element ''inlineVoid'' [Text [] []]],
      Element ''paragraph''
        [Text ''Some text '' [],
         Element ''inlineVoid'' [Text [] []],
         Text '' more text '' [],
         Element ''inlineVoid'' [Text [] []]]]"

text \<open>
  A void inline element is an element of type \<^verbatim>\<open>inlineVoid\<close>: the one type the plugin's
  \<^verbatim>\<open>isVoid\<close> and \<^verbatim>\<open>isInline\<close> answer true for by themselves.
\<close>

definition is_inlineVoid :: "node \<Rightarrow> bool" where
  "is_inlineVoid n = (node_type n = Some ''inlineVoid'')"

text \<open>
  The measure of the pass: the number of repairs still due. \<open>lead\<close> counts the inline
  voids of a child list that are first or follow an inline void; \<open>adj\<close> adds one when the
  last child is an inline void; \<open>defects\<close> adds the empty elements that are not void.
\<close>

fun lead :: "bool \<Rightarrow> bool list \<Rightarrow> nat" where
  "lead prev [] = 0"
| "lead prev (b # bs) = (if prev \<and> b then 1 else 0) + lead b bs"

definition adj :: "bool list \<Rightarrow> nat" where
  "adj bs = lead True bs + (if bs \<noteq> [] \<and> last bs then 1 else 0)"

fun defects :: "node \<Rightarrow> nat" where
  "defects (Editor cs) = adj (map is_inlineVoid cs) + sum_list (map defects cs)"
| "defects (Element ty cs) =
     (if cs = [] \<and> ty \<noteq> ''inlineVoid'' then 1 else 0)
     + adj (map is_inlineVoid cs) + sum_list (map defects cs)"
| "defects (Text s ms) = 0"

section \<open>Marks\<close>

text \<open>
  \<^verbatim>\<open>isMarkActive\<close>. \<open>lookup\<close> is \<^verbatim>\<open>Editor.marks\<close> of the editor library: it yields \<^verbatim>\<open>null\<close> or
  an object of marks. Reading a property of \<^verbatim>\<open>null\<close> would throw; a property that is
  missing reads as \<^verbatim>\<open>undefined\<close>.
\<close>

definition js_prop :: "marks option \<Rightarrow> string \<Rightarrow> error + jsval" where
  "js_prop obj key =
     (case obj of
        None \<Rightarrow> Inl TypeError
      | Some m \<Rightarrow> Inr (case map_of m key of None \<Rightarrow> JUndefined | Some v \<Rightarrow> v))"

fun truthy :: "jsval \<Rightarrow> bool" where
  "truthy JUndefined = False"
| "truthy (JBool b) = b"
| "truthy (JNum n) = (n \<noteq> 0)"
| "truthy (JStr s) = (s \<noteq> [])"

definition isMarkActive :: "('e \<Rightarrow> marks option) \<Rightarrow> 'e \<Rightarrow> string \<Rightarrow> error + bool" where
  "isMarkActive lookup editor format =
     (let marks = lookup editor in
      if marks \<noteq> None then and_then (js_prop marks format) (\<lambda>v. Inr (v = JBool True))
      else Inr False)"

text \<open>
  Modelled from the spec: the state the mark operations of the editor library work on.
  \<open>leaves\<close> are the marks of the document's text leaves in document order, the leaves
  at the selection's boundaries already split; a selection is the pair of the leaf
  holding its anchor and the leaf holding its focus, in either order.
\<close>

record mark_editor =
  leaves :: "marks list"
  selection :: "(nat \<times> nat) option"

text \<open>Modelled from the spec: the leaves a selection intersects.\<close>

definition covered :: "nat \<times> nat \<Rightarrow> nat \<Rightarrow> bool" where
  "covered sel k = (min (fst sel) (snd sel) \<le> k \<and> k \<le> max (fst sel) (snd sel))"

text \<open>
  Modelled from the spec: \<^verbatim>\<open>Editor.marks\<close>, the mark lookup at the selection's anchor: no
  marks without a selection, else the marks of the leaf that holds the anchor.
\<close>

definition Editor_marks :: "mark_editor \<Rightarrow> marks option" where
  "Editor_marks editor =
     (case selection editor of
        None \<Rightarrow> None
      | Some sel \<Rightarrow> if fst sel < length (leaves editor) then Some (leaves editor ! fst sel) else None)"

text \<open>
  Modelled from the spec: the change the mark operations of the editor library make: a
  function is applied to the marks of every text leaf the selection intersects; the
  other leaves are untouched, and without a selection nothing changes.
\<close>

definition map_covered :: "(marks \<Rightarrow> marks) \<Rightarrow> mark_editor \<Rightarrow> mark_editor" where
  "map_covered f editor =
     (case selection editor of
        None \<Rightarrow> editor
      | Some sel \<Rightarrow>
          editor\<lparr>leaves :=
            map (\<lambda>k. if covered sel k then f (leaves editor ! k) else leaves editor ! k)
              [0..<length (leaves editor)]\<rparr>)"

text \<open>
  Modelled from the spec: \<^verbatim>\<open>Editor.addMark\<close> of the editor library: every text leaf the
  selection intersects has the named mark set to the value.
\<close>

definition Editor_addMark :: "mark_editor \<Rightarrow> string \<Rightarrow> jsval \<Rightarrow> mark_editor" where
  "Editor_addMark editor key v = map_covered (AList.update key v) editor"

text \<open>
  Modelled from the spec: \<^verbatim>\<open>Editor.removeMark\<close> of the editor library: every text leaf the
  selection intersects has the named mark cleared.
\<close>

definition Editor_removeMark :: "mark_editor \<Rightarrow> string \<Rightarrow> mark_editor" where
  "Editor_removeMark editor key = map_covered (AList.delete key) editor"

text \<open>\<^verbatim>\<open>toggleMark\<close>.\<close>

definition toggleMark :: "mark_editor \<Rightarrow> string \<Rightarrow> error + mark_editor" where
  "toggleMark editor format =
     and_then (isMarkActive Editor_marks editor format) (\<lambda>isActive.
       if isActive then Inr (Editor_removeMark editor format)
       else Inr (Editor_addMark editor format (JBool True)))"

text \<open>The mark state of a leaf, as \<^verbatim>\<open>isMarkActive\<close> reads it: the mark is exactly \<^verbatim>\<open>true\<close>.\<close>

definition mark_set :: "marks \<Rightarrow> string \<Rightarrow> bool" where
  "mark_set ms format = (map_of ms format = Some (JBool True))"

section \<open>Blocks\<close>

definition LIST_TYPES :: "string list" where
  "LIST_TYPES = [''numbered-list'', ''bulleted-list'']"

text \<open>
  The operations of the editor library that \<^verbatim>\<open>isBlockActive\<close> and \<^verbatim>\<open>toggleBlock\<close> call, over
  an editor state of any type: the entries \<^verbatim>\<open>Editor.nodes\<close> walks for the selection of a
  state, which are the ancestor-or-self nodes of the selection (none without a
  selection); \<^verbatim>\<open>unwrapNodes\<close> with its \<^verbatim>\<open>match\<close> and \<^verbatim>\<open>split\<close> options; \<^verbatim>\<open>setNodes\<close> with the
  \<^verbatim>\<open>type\<close> of its patch; \<^verbatim>\<open>wrapNodes\<close> with the wrapping element.
\<close>

record 'e library =
  span_of :: "'e \<Rightarrow> entry list"
  unwrapNodes :: "(node \<Rightarrow> bool) \<Rightarrow> bool \<Rightarrow> 'e \<Rightarrow> 'e"
  setNodes :: "string \<Rightarrow> 'e \<Rightarrow> 'e"
  wrapNodes :: "node \<Rightarrow> 'e \<Rightarrow> 'e"

text \<open>
  Modelled from the spec: \<^verbatim>\<open>Editor.nodes(editor, {match})\<close> of the editor library: of the
  entries it walks for the selection it yields, in their order, those whose node matches.
\<close>

definition Editor_nodes :: "'e library \<Rightarrow> 'e \<Rightarrow> (node \<Rightarrow> bool) \<Rightarrow> entry list" where
  "Editor_nodes L editor match = filter (\<lambda>(n, p). match n) (span_of L editor)"

text \<open>\<^verbatim>\<open>isBlockActive\<close>: the first match, if any, made a boolean.\<close>

definition isBlockActive :: "'e library \<Rightarrow> 'e \<Rightarrow> string \<Rightarrow> bool" where
  "isBlockActive L editor format =
     (case Editor_nodes L editor (\<lambda>n. node_type n = Some format) of
        [] \<Rightarrow> False
      | match # rest \<Rightarrow> True)"

text \<open>The \<^verbatim>\<open>match\<close> of the unwrap: \<^verbatim>\<open>LIST_TYPES.includes(n.type)\<close>.\<close>

definition is_list_container :: "node \<Rightarrow> bool" where
  "is_list_container n = (case node_type n of None \<Rightarrow> False | Some ty \<Rightarrow> ty \<in> set LIST_TYPES)"

text \<open>\<^verbatim>\<open>toggleBlock\<close>.\<close>

definition toggleBlock :: "'e library \<Rightarrow> 'e \<Rightarrow> string \<Rightarrow> 'e" where
  "toggleBlock L editor format =
     (let isActive = isBlockActive L editor format;
          isList = (format \<in> set LIST_TYPES);
          editor1 = unwrapNodes L is_list_container True editor;
          editor2 = setNodes L
            (if isActive then ''paragraph'' else if isList then ''list-item'' else format) editor1
      in if \<not> isActive \<and> isList then wrapNodes L (Element format []) editor2 else editor2)"

section \<open>Lemmas on paths, insertion and the measure\<close>

lemma lead_insert:
  "i < length bs \<Longrightarrow> bs ! i \<Longrightarrow> (if i = 0 then prev else bs ! (i - 1)) \<Longrightarrow>
   lead prev (take i bs @ False # drop i bs) + 1 = lead prev bs"
proof (induction bs arbitrary: i prev)
  case Nil then show ?case by simp
next
  case (Cons b bs)
  show ?case
  proof (cases i)
    case 0
    with Cons.prems show ?thesis by (cases bs) auto
  next
    case (Suc k)
    with Cons.prems have "lead b (take k bs @ False # drop k bs) + 1 = lead b bs"
      by (intro Cons.IH) (auto split: if_splits simp: nth_Cons')
    with Suc show ?thesis by simp
  qed
qed

lemma lead_append_False: "lead prev (bs @ [False]) = lead prev bs"
  by (induction bs arbitrary: prev) auto

lemma lead_insert_noop_last:
  "i < length bs \<Longrightarrow> last (take i bs @ False # drop i bs) = last bs"
  by (simp add: last_append)

lemma insertNodes_cons:
  "p \<noteq> [] \<Longrightarrow> insertNodes root x (i # p) =
     (case children root of
        None \<Rightarrow> Inl InvalidPath
      | Some cs \<Rightarrow>
          if i < length cs
          then and_then (insertNodes (cs ! i) x p) (\<lambda>c. Inr (with_children root (cs[i := c])))
          else Inl InvalidPath)"
  by (cases p) auto

lemma children_with_children: "children n = Some cs \<Longrightarrow> children (with_children n cs') = Some cs'"
  by (cases n) auto

lemma node_type_with_children: "node_type (with_children n cs') = node_type n"
  by (cases n) auto

lemma is_Editor_with_children: "is_Editor (with_children n cs') = is_Editor n"
  by (cases n) auto

lemma defects_children:
  "children n = Some cs \<Longrightarrow>
   defects n = (if cs = [] \<and> \<not> is_Editor n \<and> \<not> is_inlineVoid n then 1 else 0)
               + adj (map is_inlineVoid cs) + sum_list (map defects cs)"
  by (cases n) (auto simp: is_inlineVoid_def)

lemma sum_list_defects_update:
  "j < length cs \<Longrightarrow>
   sum_list (map defects (cs[j := c])) + defects (cs ! j) = sum_list (map defects cs) + defects c"
proof (induction cs arbitrary: j)
  case Nil then show ?case by simp
next
  case (Cons a cs) then show ?case by (cases j) auto
qed

lemma map_iv_update:
  "j < length cs \<Longrightarrow> node_type c = node_type (cs ! j) \<Longrightarrow>
   map is_inlineVoid (cs[j := c]) = map is_inlineVoid cs"
  by (simp add: map_update is_inlineVoid_def list_update_same_conv)

lemma ins_deep:
  "Node_get root pp = Inr n \<Longrightarrow> children n = Some cs \<Longrightarrow> i \<le> length cs \<Longrightarrow>
   \<exists>root'. insertNodes root x (pp @ [i]) = Inr root'
     \<and> Node_get root' pp = Inr (with_children n (take i cs @ x # drop i cs))
     \<and> defects root' + defects n = defects root + defects (with_children n (take i cs @ x # drop i cs))
     \<and> node_type root' = node_type root \<and> is_Editor root' = is_Editor root"
proof (induction pp arbitrary: root)
  case Nil
  then show ?case by (simp add: node_type_with_children is_Editor_with_children)
next
  case (Cons j pp)
  from Cons.prems(1) obtain cs0 where cs0: "children root = Some cs0" "j < length cs0"
    and get: "Node_get (cs0 ! j) pp = Inr n"
    by (auto split: option.splits if_splits)
  from Cons.IH[OF get Cons.prems(2,3)] obtain c' where
    ins: "insertNodes (cs0 ! j) x (pp @ [i]) = Inr c'"
    and get': "Node_get c' pp = Inr (with_children n (take i cs @ x # drop i cs))"
    and d: "defects c' + defects n = defects (cs0 ! j) + defects (with_children n (take i cs @ x # drop i cs))"
    and ty: "node_type c' = node_type (cs0 ! j)"
    by blast
  let ?root' = "with_children root (cs0[j := c'])"
  have 1: "insertNodes root x ((j # pp) @ [i]) = Inr ?root'"
    using cs0 ins by (simp add: insertNodes_cons and_then_def)
  have ch': "children ?root' = Some (cs0[j := c'])"
    using cs0 by (simp add: children_with_children)
  have 2: "Node_get ?root' (j # pp) = Inr (with_children n (take i cs @ x # drop i cs))"
    using ch' cs0 get' by simp
  have iv: "is_inlineVoid ?root' = is_inlineVoid root"
    by (simp add: is_inlineVoid_def node_type_with_children)
  have "defects ?root' + defects (cs0 ! j) = defects root + defects c'"
    using cs0 ty sum_list_defects_update[OF cs0(2), of c']
    by (simp add: defects_children[OF ch'] defects_children[OF cs0(1)] iv
        is_Editor_with_children map_iv_update)
  with d have 3: "defects ?root' + defects n =
      defects root + defects (with_children n (take i cs @ x # drop i cs))"
    by simp
  show ?case using 1 2 3 by (simp add: node_type_with_children is_Editor_with_children)
qed

lemma Node_get_snoc:
  "Node_get root (pp @ [i]) = Inr v \<longleftrightarrow>
     (\<exists>n cs. Node_get root pp = Inr n \<and> children n = Some cs \<and> i < length cs \<and> v = cs ! i)"
proof (induction pp arbitrary: root)
  case Nil
  then show ?case by (auto split: option.splits)
next
  case (Cons j pp)
  then show ?case by (auto split: option.splits)
qed

lemma adj_after: "bs \<noteq> [] \<Longrightarrow> last bs \<Longrightarrow> adj (bs @ [False]) + 1 = adj bs"
  by (simp add: adj_def lead_append_False)

lemma adj_before:
  "i < length bs \<Longrightarrow> bs ! i \<Longrightarrow> i = 0 \<or> bs ! (i - 1) \<Longrightarrow>
   adj (take i bs @ False # drop i bs) + 1 = adj bs"
  using lead_insert[of i bs True] by (auto simp: adj_def last_append)

lemma Node_parent_snoc:
  "Node_get root pp = Inr n \<Longrightarrow> children n = Some cs \<Longrightarrow> Node_parent root (pp @ [i]) = Inr n"
  by (cases n) (auto simp: Node_parent_def Path_parent_def and_then_def)

lemma Path_snoc [simp]:
  "Path_next (pp @ [i]) = Inr (pp @ [Suc i])"
  "Path_previous (pp @ [i]) = (if i = 0 then Inl InvalidPath else Inr (pp @ [i - 1]))"
  "Path_hasPrevious (pp @ [i]) = (0 < i)"
  by (simp_all add: Path_next_def Path_previous_def Path_hasPrevious_def)

lemma normalizeNode_inlineVoid_snoc:
  assumes "Node_get root pp = Inr n" "children n = Some cs" "i < length cs"
    and "node_type v = Some ''inlineVoid''"
  shows "normalizeNode base (v, pp @ [i]) root =
     and_then (if Suc i = length cs then insertNodes root (Text zeroWidthChar []) (pp @ [Suc i])
               else Inr root) (\<lambda>editor1.
     and_then (if i = 0 \<or> is_inlineVoid (cs ! (i - 1))
               then insertNodes editor1 (Text zeroWidthChar []) (pp @ [i])
               else Inr editor1) (base (v, pp @ [i])))"
proof -
  have prev: "0 < i \<Longrightarrow> Node_get root (pp @ [i - 1]) = Inr (cs ! (i - 1))"
    using assms(1,2,3) by (subst Node_get_snoc) auto
  have last: "(int i = int (length cs) - 1) = (Suc i = length cs)"
    by auto
  show ?thesis
    using assms(4) prev
    by (cases "i = 0")
       (simp_all add: normalizeNode_def Node_parent_snoc[OF assms(1,2)] assms(2) and_then_def
          last is_inlineVoid_def Let_def split: sum.splits)
qed

lemma base_normalizeNode_inlineVoid:
  "node_type v = Some ''inlineVoid'' \<Longrightarrow> base_normalizeNode (v, p) editor = Inr editor"
  by (cases v) (auto simp: base_normalizeNode_def isVoid_def split: list.splits)

lemma defects_splice_Text:
  assumes "children n = Some cs" "i \<le> length cs"
  shows "defects (with_children n (take i cs @ Text s ms # drop i cs)) =
           adj (take i (map is_inlineVoid cs) @ False # drop i (map is_inlineVoid cs))
           + sum_list (map defects cs)"
proof -
  have "sum_list (map defects (take i cs)) + sum_list (map defects (drop i cs)) = sum_list (map defects cs)"
    by (metis append_take_drop_id map_append sum_list_append)
  then show ?thesis
    using assms
    by (simp add: defects_children[OF children_with_children[OF assms(1)]]
        is_inlineVoid_def take_map drop_map)
qed

lemma normalize_entry_inlineVoid:
  assumes get: "Node_get root pp = Inr n" and ch: "children n = Some cs" and i: "i < length cs"
    and iv: "is_inlineVoid (cs ! i)"
  shows "\<exists>root'. normalize_entry root (pp @ [i]) = Inr root'
      \<and> defects root' + (if Suc i = length cs then 1 else 0)
           + (if i = 0 \<or> is_inlineVoid (cs ! (i - 1)) then 1 else 0) = defects root
      \<and> is_Editor root' = is_Editor root
      \<and> (Suc i \<noteq> length cs \<and> \<not> (i = 0 \<or> is_inlineVoid (cs ! (i - 1))) \<longrightarrow> root' = root)"
proof -
  let ?zw = "Text zeroWidthChar []"
  let ?bs = "map is_inlineVoid cs"
  have ty: "node_type (cs ! i) = Some ''inlineVoid''" using iv by (simp add: is_inlineVoid_def)
  have entry: "Node_get root (pp @ [i]) = Inr (cs ! i)"
    using get ch i by (subst Node_get_snoc) auto
  have nf: "normalize_entry root (pp @ [i]) =
     and_then (if Suc i = length cs then insertNodes root ?zw (pp @ [Suc i]) else Inr root) (\<lambda>editor1.
     and_then (if i = 0 \<or> is_inlineVoid (cs ! (i - 1)) then insertNodes editor1 ?zw (pp @ [i])
               else Inr editor1) (\<lambda>editor2. Inr editor2))"
  proof -
    have "base_normalizeNode (cs ! i, pp @ [i]) = (\<lambda>editor2. Inr editor2)"
      by (rule ext) (simp add: base_normalizeNode_inlineVoid[OF ty])
    then show ?thesis
      by (simp add: normalize_entry_def entry normalizeNode_inlineVoid_snoc[OF get ch i ty])
  qed
  have dn: "defects n = adj ?bs + sum_list (map defects cs)"
    using i by (subst defects_children[OF ch]) auto
  \<comment> \<open>the first insertion\<close>
  obtain r1 n1 cs1 where r1: "(if Suc i = length cs then insertNodes root ?zw (pp @ [Suc i]) else Inr root) = Inr r1"
    and get1: "Node_get r1 pp = Inr n1" and ch1: "children n1 = Some cs1"
    and cs1: "cs1 = (if Suc i = length cs then cs @ [?zw] else cs)"
    and d1: "defects r1 + (if Suc i = length cs then 1 else 0) = defects root"
    and e1: "is_Editor r1 = is_Editor root"
    and dn1: "defects n1 = adj (map is_inlineVoid cs1) + sum_list (map defects cs1)"
    and same1: "Suc i \<noteq> length cs \<longrightarrow> r1 = root"
  proof (cases "Suc i = length cs")
    case True
    from ins_deep[OF get ch, of "Suc i" ?zw] True i obtain r where
      r: "insertNodes root ?zw (pp @ [Suc i]) = Inr r"
      "Node_get r pp = Inr (with_children n (cs @ [?zw]))"
      "defects r + defects n = defects root + defects (with_children n (cs @ [?zw]))"
      "is_Editor r = is_Editor root"
      by auto
    have "cs \<noteq> []" using i by auto
    moreover have "last cs = cs ! i"
      using True \<open>cs \<noteq> []\<close> by (metis diff_Suc_1 last_conv_nth)
    ultimately have last: "last ?bs" "?bs \<noteq> []"
      using iv by (simp_all add: last_map)
    have dsp: "defects (with_children n (cs @ [?zw])) = adj (?bs @ [False]) + sum_list (map defects cs)"
      using defects_splice_Text[OF ch, of "length cs" zeroWidthChar "[]"] by simp
    have "defects r + 1 = defects root"
      using r(3) dn dsp adj_after[OF last(2,1)] by simp
    moreover have "defects (with_children n (cs @ [?zw])) =
        adj (map is_inlineVoid (cs @ [?zw])) + sum_list (map defects (cs @ [?zw]))"
      using dsp by (simp add: is_inlineVoid_def)
    ultimately show ?thesis
      using True r that[of r "with_children n (cs @ [?zw])" "cs @ [?zw]"]
      by (simp add: children_with_children[OF ch])
  next
    case False
    then show ?thesis using that[of root n cs] get ch dn by simp
  qed
  have i1: "i < length cs1" and nth1: "cs1 ! i = cs ! i" "i \<noteq> 0 \<Longrightarrow> cs1 ! (i - 1) = cs ! (i - 1)"
    using i cs1 by (auto simp: nth_append)
  show ?thesis
  proof (cases "i = 0 \<or> is_inlineVoid (cs ! (i - 1))")
    case True
    from ins_deep[OF get1 ch1, of i ?zw] i1 obtain r2 where
      r2: "insertNodes r1 ?zw (pp @ [i]) = Inr r2"
      "defects r2 + defects n1 = defects r1 + defects (with_children n1 (take i cs1 @ ?zw # drop i cs1))"
      "is_Editor r2 = is_Editor r1"
      by auto
    let ?bs1 = "map is_inlineVoid cs1"
    have "i = 0 \<or> ?bs1 ! (i - 1)"
    proof (cases "i = 0")
      case False
      with True nth1(2) i1 show ?thesis by simp
    qed simp
    moreover have "?bs1 ! i" using i1 iv nth1(1) by simp
    ultimately have "adj (take i ?bs1 @ False # drop i ?bs1) + 1 = adj ?bs1"
      using i1 by (intro adj_before) simp_all
    then have "defects r2 + 1 = defects r1"
      using r2(2) dn1 defects_splice_Text[OF ch1, of i zeroWidthChar "[]"] i1 by simp
    then show ?thesis
      using True r1 r2 d1 e1 by (auto simp: nf and_then_def)
  next
    case False
    then show ?thesis
      using r1 d1 e1 same1 by (auto simp: nf and_then_def)
  qed
qed

lemma adj_Nil [simp]: "adj [] = 0" "adj [False] = 0"
  by (simp_all add: adj_def)

lemma normalize_entry_other:
  assumes get: "Node_get root p = Inr node" and niv: "\<not> is_inlineVoid node"
  shows "\<exists>root'. normalize_entry root p = Inr root'
      \<and> defects root' + (if \<not> is_Editor node \<and> children node = Some [] then 1 else 0) = defects root
      \<and> is_Editor root' = is_Editor root
      \<and> (\<not> (\<not> is_Editor node \<and> children node = Some []) \<longrightarrow> root' = root)"
proof (cases "\<not> is_Editor node \<and> children node = Some []")
  case True
  then obtain ty where node: "node = Element ty []" by (cases node) auto
  with niv have ty: "ty \<noteq> ''inlineVoid''" by (simp add: is_inlineVoid_def)
  from ins_deep[OF get, of "[]" 0 "Text [] []"] node obtain r where
    r: "insertNodes root (Text [] []) (p @ [0]) = Inr r"
    "defects r + defects node = defects root + defects (with_children node [Text [] []])"
    "is_Editor r = is_Editor root"
    by auto
  have "normalize_entry root p = Inr r"
    using r(1) node ty niv
    by (simp add: normalize_entry_def get normalizeNode_def base_normalizeNode_def isVoid_def
        default_isVoid_def is_inlineVoid_def)
  moreover have "defects r + 1 = defects root"
    using r(2) node ty by (simp add: is_inlineVoid_def)
  ultimately show ?thesis using True r(3) by simp
next
  case False
  then have "base_normalizeNode (node, p) root = Inr root"
    by (cases node) (auto simp: base_normalizeNode_def split: list.splits)
  then show ?thesis
    using False niv by (simp add: normalize_entry_def get normalizeNode_def is_inlineVoid_def)
qed

lemma path_snoc_cases: "p = [] \<or> (\<exists>pp i. p = pp @ [i])"
  by (cases p rule: rev_cases) auto

lemma normalize_entry_decreases:
  assumes "normalize_entry root p = Inr root'" "root' \<noteq> root"
  shows "defects root' < defects root"
proof (cases "Node_get root p")
  case (Inl e)
  with assms show ?thesis by (simp add: normalize_entry_def)
next
  case (Inr node)
  show ?thesis
  proof (cases "is_inlineVoid node")
    case False
    from normalize_entry_other[OF Inr False] assms show ?thesis by (auto split: if_splits)
  next
    case True
    show ?thesis
    proof (cases p rule: rev_cases)
      case Nil
      with Inr True assms(1) show ?thesis
        by (simp add: normalize_entry_def normalizeNode_def is_inlineVoid_def Node_parent_def
            Path_parent_def and_then_def)
    next
      case (snoc pp i)
      with Inr obtain n cs where n: "Node_get root pp = Inr n" "children n = Some cs" "i < length cs"
        "node = cs ! i"
        by (auto simp: Node_get_snoc)
      from normalize_entry_inlineVoid[OF n(1,2,3)] True n(4) snoc assms show ?thesis
        by (auto split: if_splits)
    qed
  qed
qed

termination normalize_worklist
  by (relation "measures [\<lambda>(editor, paths). defects editor, \<lambda>(editor, paths). length paths]")
     (auto dest: normalize_entry_decreases)

lemma normalize_entry_Editor:
  assumes "is_Editor root"
  shows "\<exists>root'. normalize_entry root p = Inr root' \<and> is_Editor root'"
proof (cases "Node_get root p")
  case (Inl e)
  with assms show ?thesis by (simp add: normalize_entry_def)
next
  case (Inr node)
  show ?thesis
  proof (cases "is_inlineVoid node")
    case False
    from normalize_entry_other[OF Inr False] assms show ?thesis by auto
  next
    case True
    show ?thesis
    proof (cases p rule: rev_cases)
      case Nil
      with Inr True assms show ?thesis by (cases root) (auto simp: is_inlineVoid_def)
    next
      case (snoc pp i)
      with Inr obtain n cs where n: "Node_get root pp = Inr n" "children n = Some cs" "i < length cs"
        "node = cs ! i"
        by (auto simp: Node_get_snoc)
      from normalize_entry_inlineVoid[OF n(1,2,3)] True n(4) snoc assms show ?thesis
        by auto
    qed
  qed
qed

lemma paths_of_list_mem:
  "k < length cs \<Longrightarrow> q \<in> set (paths_of (cs ! k)) \<Longrightarrow> (i + k) # q \<in> set (paths_of_list i cs)"
proof (induction cs arbitrary: i k)
  case Nil then show ?case by simp
next
  case (Cons c cs)
  show ?case
  proof (cases k)
    case 0 with Cons.prems show ?thesis by simp
  next
    case (Suc k')
    with Cons.prems Cons.IH[of k' "Suc i"] show ?thesis by simp
  qed
qed

lemma paths_of_children:
  "children t = Some cs \<Longrightarrow> paths_of t = [] # paths_of_list 0 cs"
  by (cases t) auto

lemma Nil_in_paths_of: "[] \<in> set (paths_of t)"
  by (cases t) auto

lemma Node_get_in_paths_of: "Node_get t p = Inr n \<Longrightarrow> p \<in> set (paths_of t)"
proof (induction p arbitrary: t)
  case Nil then show ?case by (simp add: Nil_in_paths_of)
next
  case (Cons i p)
  then obtain cs where cs: "children t = Some cs" "i < length cs" "Node_get (cs ! i) p = Inr n"
    by (auto split: option.splits if_splits)
  from Cons.IH[OF cs(3)] paths_of_list_mem[OF cs(2), of p 0] show ?case
    by (simp add: paths_of_children[OF cs(1)])
qed

lemma normalize_entry_unresolved: "p \<notin> set (paths_of t) \<Longrightarrow> normalize_entry t p = Inr t"
  using Node_get_in_paths_of[of t p] by (cases "Node_get t p") (auto simp: normalize_entry_def)

lemma normalize_worklist_result:
  "is_Editor editor \<Longrightarrow> (\<forall>p. p \<notin> set paths \<longrightarrow> normalize_entry editor p = Inr editor) \<Longrightarrow>
   \<exists>r. normalize_worklist editor paths = Inr r \<and> is_Editor r \<and> (\<forall>p. normalize_entry r p = Inr r)"
proof (induction editor paths rule: normalize_worklist.induct)
  case (1 editor)
  then show ?case by simp
next
  case (2 editor path paths)
  from normalize_entry_Editor[OF "2.prems"(1), of path] obtain e' where
    e': "normalize_entry editor path = Inr e'" "is_Editor e'" by blast
  show ?case
  proof (cases "e' = editor")
    case True
    with e' "2.prems" have "\<forall>p. p \<notin> set paths \<longrightarrow> normalize_entry editor p = Inr editor"
      by auto
    from "2.IH"(1)[OF e'(1) True "2.prems"(1) this] e' True show ?thesis by simp
  next
    case False
    from "2.IH"(2)[OF e'(1) False e'(2)] normalize_entry_unresolved e' False show ?thesis
      by simp
  qed
qed

lemma normalize_worklist_fixed:
  "(\<forall>p. normalize_entry editor p = Inr editor) \<Longrightarrow> normalize_worklist editor paths = Inr editor"
  by (induction paths) auto

lemma inlineVoid_is_void_inline: "is_inlineVoid n \<Longrightarrow> isVoid v0 n \<and> isInline i0 n"
  by (simp add: is_inlineVoid_def isVoid_def isInline_def)

lemma normalize_Editor:
  "\<exists>r. normalize (Editor cs) = Inr r \<and> is_Editor r \<and> (\<forall>p. normalize_entry r p = Inr r)"
  unfolding normalize_def
  by (rule normalize_worklist_result) (simp_all add: normalize_entry_unresolved)

lemma normalize_fixed:
  "(\<forall>p. normalize_entry r p = Inr r) \<Longrightarrow> normalize r = Inr r"
  by (simp add: normalize_def normalize_worklist_fixed)

section \<open>Lemmas on marks\<close>

lemma selection_map_covered [simp]: "selection (map_covered f editor) = selection editor"
  by (simp add: map_covered_def split: option.splits)

lemma length_leaves_map_covered [simp]:
  "length (leaves (map_covered f editor)) = length (leaves editor)"
  by (simp add: map_covered_def split: option.splits)

lemma leaves_map_covered:
  "selection editor = Some sel \<Longrightarrow> k < length (leaves editor) \<Longrightarrow>
   leaves (map_covered f editor) ! k =
     (if covered sel k then f (leaves editor ! k) else leaves editor ! k)"
  by (simp add: map_covered_def)

lemma mark_set_update [simp]: "mark_set (AList.update key v ms) key = (v = JBool True)"
  by (simp add: mark_set_def update_conv')

lemma mark_set_delete [simp]: "mark_set (AList.delete key ms) key = False"
  by (simp add: mark_set_def delete_conv')

lemma isMarkActive_Some:
  "lookup editor = Some m \<Longrightarrow> isMarkActive lookup editor format = Inr (mark_set m format)"
  by (auto simp: isMarkActive_def js_prop_def and_then_def mark_set_def split: option.splits)

lemma isMarkActive_None:
  "lookup editor = None \<Longrightarrow> isMarkActive lookup editor format = Inr False"
  by (simp add: isMarkActive_def)

lemma toggleMark_selected:
  assumes "selection editor = Some sel" "fst sel < length (leaves editor)"
  shows "toggleMark editor format =
     Inr (if mark_set (leaves editor ! fst sel) format then Editor_removeMark editor format
          else Editor_addMark editor format (JBool True))"
proof -
  have "Editor_marks editor = Some (leaves editor ! fst sel)"
    using assms by (simp add: Editor_marks_def)
  then show ?thesis
    by (simp add: toggleMark_def isMarkActive_Some and_then_def)
qed

section \<open>Idempotence\<close>

text \<open>
  C2. The pass ends on every document, and running it on its own result changes
  nothing: the result of the second run is the tree it was given.
\<close>

theorem normalize_idempotent:
  "\<exists>editor'. normalize (Editor cs) = Inr editor' \<and> normalize editor' = Inr editor'"
  using normalize_Editor[of cs] normalize_fixed by blast

theorem normalize_idempotent_witness:
  "\<exists>editor'. normalize (Editor [Element ''paragraph'' [Element ''inlineVoid'' [Text [] []]]]) = Inr editor'
     \<and> normalize editor' = Inr editor'"
  by (rule normalize_idempotent)

section \<open>The initial document\<close>

text \<open>
  C3. Normalizing \<^verbatim>\<open>initialValue\<close> gives two paragraphs of five children each: the four
  they had, and a zero-width marker leaf right after the final void inline element.
\<close>

theorem initialValue_normalized:
  "normalize initialValue = Inr (Editor
     [Element ''paragraph''
        [Text ''Some text '' [],
         Element ''inlineVoid'' [Text [] []],
         Text '' more text '' [],
         Element ''inlineVoid'' [Text [] []],
         Text zeroWidthChar []],
      Element ''paragraph''
        [Text ''Some text '' [],
         Element ''inlineVoid'' [Text [] []],
         Text '' more text '' [],
         Element ''inlineVoid'' [Text [] []],
         Text zeroWidthChar []]])"
  by code_simp

section \<open>A void inline element that is an only child\<close>

text \<open>
  C4. When the entry is a void inline element that is the only child of its parent (so
  both first and last), the plugin's \<^verbatim>\<open>normalizeNode\<close> inserts two marker leaves before it
  hands over to the wrapped editor's \<^verbatim>\<open>normalizeNode\<close>: the parent's children are then
  marker, element, marker, whatever the wrapped method is.
\<close>

theorem first_and_last_child_gets_two_markers:
  assumes "Node_get editor pp = Inr parent" and "children parent = Some [v]"
    and "node_type v = Some ''inlineVoid''"
  shows "\<exists>editor'.
           (\<forall>base. normalizeNode base (v, pp @ [0]) editor = base (v, pp @ [0]) editor') \<and>
           (\<exists>parent'. Node_get editor' pp = Inr parent' \<and>
              children parent' = Some [Text zeroWidthChar [], v, Text zeroWidthChar []])"
proof -
  let ?zw = "Text zeroWidthChar []"
  from ins_deep[OF assms(1,2), of 1 ?zw] obtain e1 where
    e1: "insertNodes editor ?zw (pp @ [1]) = Inr e1"
    "Node_get e1 pp = Inr (with_children parent [v, ?zw])"
    by auto
  have ch1: "children (with_children parent [v, ?zw]) = Some [v, ?zw]"
    by (rule children_with_children[OF assms(2)])
  from ins_deep[OF e1(2) ch1, of 0 ?zw] obtain e2 where
    e2: "insertNodes e1 ?zw (pp @ [0]) = Inr e2"
    "Node_get e2 pp = Inr (with_children (with_children parent [v, ?zw]) [?zw, v, ?zw])"
    by auto
  have "\<forall>base. normalizeNode base (v, pp @ [0]) editor = base (v, pp @ [0]) e2"
    using e1(1) e2(1)
    by (simp add: normalizeNode_inlineVoid_snoc[OF assms(1,2) _ assms(3)] and_then_def)
  moreover have "children (with_children (with_children parent [v, ?zw]) [?zw, v, ?zw])
      = Some [?zw, v, ?zw]"
    by (rule children_with_children[OF ch1])
  ultimately show ?thesis using e2(2) by blast
qed

theorem first_and_last_child_gets_two_markers_witness:
  "\<exists>editor'.
     (\<forall>base. normalizeNode base (Element ''inlineVoid'' [Text [] []], [0] @ [0])
                (Editor [Element ''paragraph'' [Element ''inlineVoid'' [Text [] []]]])
              = base (Element ''inlineVoid'' [Text [] []], [0] @ [0]) editor') \<and>
     (\<exists>parent'. Node_get editor' [0] = Inr parent' \<and>
        children parent' = Some [Text zeroWidthChar [], Element ''inlineVoid'' [Text [] []],
                                 Text zeroWidthChar []])"
  using first_and_last_child_gets_two_markers[of
      "Editor [Element ''paragraph'' [Element ''inlineVoid'' [Text [] []]]]" "[0]"
      "Element ''paragraph'' [Element ''inlineVoid'' [Text [] []]]"
      "Element ''inlineVoid'' [Text [] []]"]
  by simp

section \<open>Block toggling\<close>

text \<open>
  C5. \<^verbatim>\<open>toggleBlock\<close> first unwraps the list containers (with \<^verbatim>\<open>split\<close>), whatever the
  format; then it sets the type to \<^verbatim>\<open>paragraph\<close> if the format was active before the
  unwrap, to \<^verbatim>\<open>list-item\<close> if the format is a list type that was not active, and to the
  format otherwise; and only in the second case it finally wraps the nodes in a new
  element of the format with no children of its own.
\<close>

theorem toggleBlock_steps:
  "toggleBlock L editor format =
     (let unwrapped = unwrapNodes L is_list_container True editor in
      if isBlockActive L editor format then setNodes L ''paragraph'' unwrapped
      else if format \<in> set LIST_TYPES
        then wrapNodes L (Element format []) (setNodes L ''list-item'' unwrapped)
      else setNodes L format unwrapped)"
  by (simp add: toggleBlock_def Let_def)

text \<open>
  With library operations that log their calls, toggling an inactive \<^verbatim>\<open>bulleted-list\<close> on a
  paragraph makes the three calls in this order.
\<close>

theorem toggleBlock_steps_witness:
  "toggleBlock
     \<lparr>span_of = (\<lambda>log. [(Element ''paragraph'' [Text ''a'' []], [0]), (Text ''a'' [], [0, 0])]),
      unwrapNodes = (\<lambda>match split log. log @ [(''unwrapNodes'', if split then ''split'' else [])]),
      setNodes = (\<lambda>ty log. log @ [(''setNodes'', ty)]),
      wrapNodes = (\<lambda>block log.
        log @ [(''wrapNodes'', case node_type block of None \<Rightarrow> [] | Some ty \<Rightarrow> ty)])\<rparr>
     [] ''bulleted-list''
   = [(''unwrapNodes'', ''split''), (''setNodes'', ''list-item''), (''wrapNodes'', ''bulleted-list'')]"
  using toggleBlock_steps[of
     "\<lparr>span_of = (\<lambda>log. [(Element ''paragraph'' [Text ''a'' []], [0]), (Text ''a'' [], [0, 0])]),
      unwrapNodes = (\<lambda>match split log. log @ [(''unwrapNodes'', if split then ''split'' else [])]),
      setNodes = (\<lambda>ty log. log @ [(''setNodes'', ty)]),
      wrapNodes = (\<lambda>block log.
        log @ [(''wrapNodes'', case node_type block of None \<Rightarrow> [] | Some ty \<Rightarrow> ty)])\<rparr>"
     "[]" "''bulleted-list''"]
  by (simp add: isBlockActive_def Editor_nodes_def LIST_TYPES_def)

section \<open>Mark toggling\<close>

text \<open>
  C6. The spec asks that toggling a mark twice restores the mark state of every covered
  leaf. \<^verbatim>\<open>toggleMark\<close> decides from the leaf at the anchor alone and then sets or clears
  the mark on all covered leaves, so this holds when the covered leaves agree with the
  leaf at the anchor on whether the mark is \<^verbatim>\<open>true\<close>: then both toggles succeed and every
  leaf of the document has the mark set after them exactly if it had it set before.
\<close>

theorem toggleMark_twice_uniform:
  assumes sel: "selection editor = Some (a, f)" and a: "a < length (leaves editor)"
    and uni: "\<forall>k < length (leaves editor). covered (a, f) k \<longrightarrow>
                mark_set (leaves editor ! k) format = mark_set (leaves editor ! a) format"
  shows "\<exists>editor1 editor2.
           toggleMark editor format = Inr editor1 \<and> toggleMark editor1 format = Inr editor2 \<and>
           length (leaves editor2) = length (leaves editor) \<and>
           (\<forall>k < length (leaves editor).
              mark_set (leaves editor2 ! k) format = mark_set (leaves editor ! k) format)"
proof -
  let ?b = "mark_set (leaves editor ! a) format"
  let ?f1 = "if ?b then AList.delete format else AList.update format (JBool True)"
  let ?f2 = "if ?b then AList.update format (JBool True) else AList.delete format"
  let ?e1 = "map_covered ?f1 editor"
  let ?e2 = "map_covered ?f2 ?e1"
  have cov_a: "covered (a, f) a" by (simp add: covered_def)
  have t1: "toggleMark editor format = Inr ?e1"
    using toggleMark_selected[of editor "(a, f)" format] sel a
    by (simp add: Editor_removeMark_def Editor_addMark_def)
  have sel1: "selection ?e1 = Some (a, f)" using sel by simp
  have a1: "a < length (leaves ?e1)" using a by simp
  have b1: "mark_set (leaves ?e1 ! a) format = (\<not> ?b)"
    using leaves_map_covered[OF sel a, of ?f1] cov_a by simp
  have t2: "toggleMark ?e1 format = Inr ?e2"
    using toggleMark_selected[of ?e1 "(a, f)" format] sel1 a1 b1
    by (simp add: Editor_removeMark_def Editor_addMark_def)
  have "mark_set (leaves ?e2 ! k) format = mark_set (leaves editor ! k) format"
    if k: "k < length (leaves editor)" for k
  proof (cases "covered (a, f) k")
    case True
    have "mark_set (leaves ?e2 ! k) format = ?b"
      using leaves_map_covered[OF sel1, of k ?f2] k True by simp
    with uni k True show ?thesis by simp
  next
    case False
    then show ?thesis
      using leaves_map_covered[OF sel1, of k ?f2] leaves_map_covered[OF sel k, of ?f1] k by simp
  qed
  with t1 t2 show ?thesis by simp
qed

theorem toggleMark_twice_uniform_witness:
  "\<exists>editor1 editor2.
     toggleMark \<lparr>leaves = [[], [], [(''bold'', JBool True)]], selection = Some (1, 0)\<rparr> ''bold'' = Inr editor1 \<and>
     toggleMark editor1 ''bold'' = Inr editor2 \<and>
     leaves editor1 = [[(''bold'', JBool True)], [(''bold'', JBool True)], [(''bold'', JBool True)]] \<and>
     length (leaves editor2) = 3 \<and>
     \<not> mark_set (leaves editor2 ! 0) ''bold'' \<and> \<not> mark_set (leaves editor2 ! 1) ''bold'' \<and>
     mark_set (leaves editor2 ! 2) ''bold''"
proof -
  let ?e = "\<lparr>leaves = [[], [], [(''bold'', JBool True)]], selection = Some (1, 0)\<rparr>"
  have "\<forall>k < length (leaves ?e). covered (1, 0) k \<longrightarrow>
          mark_set (leaves ?e ! k) ''bold'' = mark_set (leaves ?e ! 1) ''bold''"
    by (auto simp: covered_def mark_set_def less_Suc_eq)
  from toggleMark_twice_uniform[of ?e 1 0 "''bold''", OF _ _ this]
  obtain editor1 editor2 where
    t: "toggleMark ?e ''bold'' = Inr editor1" "toggleMark editor1 ''bold'' = Inr editor2"
      "length (leaves editor2) = 3"
    and r: "\<forall>k < 3. mark_set (leaves editor2 ! k) ''bold'' = mark_set (leaves ?e ! k) ''bold''"
    by auto
  have "toggleMark ?e ''bold'' = Inr \<lparr>leaves = [[(''bold'', JBool True)], [(''bold'', JBool True)],
      [(''bold'', JBool True)]], selection = Some (1, 0)\<rparr>"
    by (simp add: toggleMark_def isMarkActive_def Editor_marks_def js_prop_def and_then_def
      Editor_addMark_def map_covered_def covered_def upt_rec)
  with t(1) have l1: "leaves editor1 = [[(''bold'', JBool True)], [(''bold'', JBool True)],
      [(''bold'', JBool True)]]" by auto
  from r have "\<not> mark_set (leaves editor2 ! 0) ''bold''" "\<not> mark_set (leaves editor2 ! 1) ''bold''"
    "mark_set (leaves editor2 ! 2) ''bold''"
    by (simp_all add: mark_set_def)
  with t l1 show ?thesis by blast
qed

text \<open>
  Where the covered leaves differ the round trip fails: with the anchor in a leaf
  that is not bold and the focus in a bold leaf, the first toggle makes both bold, the
  second clears both, and the second leaf has lost its mark.
\<close>

theorem toggleMark_twice_counterexample:
  "and_then (toggleMark \<lparr>leaves = [[], [(''bold'', JBool True)]], selection = Some (0, 1)\<rparr> ''bold'')
     (\<lambda>editor1. toggleMark editor1 ''bold'')
   = Inr \<lparr>leaves = [[], []], selection = Some (0, 1)\<rparr>
   \<and> covered (0, 1) 1
   \<and> mark_set ([[], [(''bold'', JBool True)]] ! 1) ''bold''
   \<and> \<not> mark_set ([[], []] ! 1) ''bold''"
  by (simp add: toggleMark_def isMarkActive_def Editor_marks_def js_prop_def and_then_def
      Editor_addMark_def Editor_removeMark_def map_covered_def covered_def mark_set_def
      upt_rec)

section \<open>Block and mark queries\<close>

text \<open>
  C7. \<^verbatim>\<open>isBlockActive\<close> is true exactly if at least one of the ancestor-or-self nodes of
  the selection has the type asked for.
\<close>

theorem isBlockActive_iff:
  "isBlockActive L editor format \<longleftrightarrow>
     (\<exists>entry \<in> set (span_of L editor). node_type (fst entry) = Some format)"
proof -
  have "Editor_nodes L editor (\<lambda>n. node_type n = Some format) \<noteq> []
        \<longleftrightarrow> (\<exists>entry \<in> set (span_of L editor). node_type (fst entry) = Some format)"
    by (force simp: Editor_nodes_def filter_empty_conv)
  moreover have "isBlockActive L editor format
        \<longleftrightarrow> Editor_nodes L editor (\<lambda>n. node_type n = Some format) \<noteq> []"
    by (cases "Editor_nodes L editor (\<lambda>n. node_type n = Some format)")
       (simp_all add: isBlockActive_def)
  ultimately show ?thesis by simp
qed

theorem isBlockActive_iff_witness:
  "isBlockActive
     \<lparr>span_of = (\<lambda>doc. [(Editor doc, []), (doc ! 0, [0]), (Text ''a'' [], [0, 0])]),
      unwrapNodes = (\<lambda>match split doc. doc), setNodes = (\<lambda>ty doc. doc),
      wrapNodes = (\<lambda>block doc. doc)\<rparr>
     [Element ''heading-one'' [Text ''a'' []]] ''heading-one''
   \<and> \<not> isBlockActive
     \<lparr>span_of = (\<lambda>doc. [(Editor doc, []), (doc ! 0, [0]), (Text ''a'' [], [0, 0])]),
      unwrapNodes = (\<lambda>match split doc. doc), setNodes = (\<lambda>ty doc. doc),
      wrapNodes = (\<lambda>block doc. doc)\<rparr>
     [Element ''heading-one'' [Text ''a'' []]] ''paragraph''"
  using isBlockActive_iff[of
     "\<lparr>span_of = (\<lambda>doc. [(Editor doc, []), (doc ! 0, [0]), (Text ''a'' [], [0, 0])]),
      unwrapNodes = (\<lambda>match split doc. doc), setNodes = (\<lambda>ty doc. doc),
      wrapNodes = (\<lambda>block doc. doc)\<rparr>"
     "[Element ''heading-one'' [Text ''a'' []]]" "''heading-one''"]
    isBlockActive_iff[of
     "\<lparr>span_of = (\<lambda>doc. [(Editor doc, []), (doc ! 0, [0]), (Text ''a'' [], [0, 0])]),
      unwrapNodes = (\<lambda>match split doc. doc), setNodes = (\<lambda>ty doc. doc),
      wrapNodes = (\<lambda>block doc. doc)\<rparr>"
     "[Element ''heading-one'' [Text ''a'' []]]" "''paragraph''"]
  by simp

text \<open>
  C8. \<^verbatim>\<open>isMarkActive\<close> never fails: whatever the mark lookup yields it returns a boolean,
  and the boolean is false when the lookup yields no marks, be it \<^verbatim>\<open>null\<close> or an object
  without the mark.
\<close>

theorem isMarkActive_total:
  "\<exists>b. isMarkActive lookup editor format = Inr b
     \<and> (lookup editor = None \<longrightarrow> \<not> b)
     \<and> (\<forall>m. lookup editor = Some m \<and> map_of m format = None \<longrightarrow> \<not> b)"
proof (cases "lookup editor")
  case None
  then show ?thesis by (auto simp: isMarkActive_None)
next
  case (Some m)
  then show ?thesis by (auto simp: isMarkActive_Some mark_set_def)
qed

theorem isMarkActive_total_witness:
  "\<exists>b. isMarkActive Editor_marks \<lparr>leaves = [[(''bold'', JBool True)]], selection = None\<rparr> ''bold'' = Inr b
     \<and> Editor_marks \<lparr>leaves = [[(''bold'', JBool True)]], selection = None\<rparr> = None \<and> \<not> b"
  using isMarkActive_total[of Editor_marks "\<lparr>leaves = [[(''bold'', JBool True)]], selection = None\<rparr>" "''bold''"]
  by (simp add: Editor_marks_def)

section \<open>Frame of the plugin\<close>

text \<open>
  C9. On an entry whose node's type is not \<^verbatim>\<open>inlineVoid\<close> the plugin's \<^verbatim>\<open>normalizeNode\<close>
  changes nothing itself: its result is the result of the wrapped editor's
  \<^verbatim>\<open>normalizeNode\<close> on the same entry and the same tree, whatever that method is.
\<close>

theorem normalizeNode_other_type:
  "node_type node \<noteq> Some ''inlineVoid'' \<Longrightarrow>
     normalizeNode base (node, path) editor = base (node, path) editor"
  by (simp add: normalizeNode_def)

theorem normalizeNode_other_type_witness:
  "normalizeNode base_normalizeNode (Element ''paragraph'' [], [0]) (Editor [Element ''paragraph'' []])
     = Inr (Editor [Element ''paragraph'' [Text [] []]])"
  using normalizeNode_other_type[of "Element ''paragraph'' []" base_normalizeNode "[0]"
      "Editor [Element ''paragraph'' []]"]
  by (simp add: base_normalizeNode_def isVoid_def default_isVoid_def and_then_def)

section \<open>Strictness of the mark query\<close>

text \<open>
  C10. A mark stored with a truthy value other than \<^verbatim>\<open>true\<close> does not count:
  \<^verbatim>\<open>isMarkActive\<close> returns false for it.
\<close>

theorem isMarkActive_only_true:
  "lookup editor = Some m \<Longrightarrow> map_of m format = Some v \<Longrightarrow> truthy v \<Longrightarrow> v \<noteq> JBool True \<Longrightarrow>
   isMarkActive lookup editor format = Inr False"
  by (simp add: isMarkActive_Some mark_set_def)

theorem isMarkActive_only_true_witness:
  "Editor_marks \<lparr>leaves = [[(''bold'', JStr ''yes'')]], selection = Some (0, 0)\<rparr>
     = Some [(''bold'', JStr ''yes'')]
   \<and> truthy (JStr ''yes'')
   \<and> isMarkActive Editor_marks \<lparr>leaves = [[(''bold'', JStr ''yes'')]], selection = Some (0, 0)\<rparr> ''bold''
     = Inr False"
  using isMarkActive_only_true[of Editor_marks
      "\<lparr>leaves = [[(''bold'', JStr ''yes'')]], selection = Some (0, 0)\<rparr>"
      "[(''bold'', JStr ''yes'')]" "''bold''" "JStr ''yes''"]
  by (simp add: Editor_marks_def)

end
